theory Spec2Isabelle
  imports Main
begin

section \<open>Strings, buffers and paths as the module sees them\<close>

text \<open>
  The module under study is \<^verbatim>\<open>packages/server/lib/util/fs.ts\<close>: \<^verbatim>\<open>getPath\<close> builds the
  name of a screenshot or video from the test's metadata and \<^verbatim>\<open>ensureSafePath\<close> turns it
  into a path that is free, short enough for the filesystem and already created.

  A JavaScript string is represented by its UTF-8 encoding, a list of bytes
  (\<^typ>\<open>string\<close>). \<^verbatim>\<open>Buffer.from(s)\<close> is then the list itself and \<^verbatim>\<open>byteLength\<close> is
  \<^const>\<open>length\<close>, whereas \<^verbatim>\<open>s.length\<close> counts UTF-16 code units and \<^verbatim>\<open>buf.toString()\<close>
  decodes the bytes, putting U+FFFD where they are not well formed. The functions of
  \<^verbatim>\<open>path\<close> are those of POSIX. Numbers are integers: \<^verbatim>\<open>maxSafeBytes\<close> is an \<^typ>\<open>int\<close> and
  the duplicate index \<^verbatim>\<open>num\<close> a \<^typ>\<open>nat\<close>.
\<close>

definition byte :: "char \<Rightarrow> nat" where
  "byte c = of_char c"

text \<open>\<^verbatim>\<open>String.prototype.length\<close>: one unit for each character of the Basic Multilingual
  Plane, two for each character encoded in four bytes; continuation bytes count nothing.\<close>

definition units :: "char \<Rightarrow> nat" where
  "units c = (if 0x80 \<le> byte c \<and> byte c < 0xC0 then 0 else if 0xF0 \<le> byte c then 2 else 1)"

definition js_length :: "string \<Rightarrow> nat" where
  "js_length s = sum_list (map units s)"

text \<open>Template literals print a non-negative integer in decimal (true of every integer
  below \<open>10\<^sup>2\<^sup>1\<close>, which a duplicate index or an attempt number stays under).\<close>

definition digit :: "nat \<Rightarrow> char" where
  "digit d = ''0123456789'' ! d"

function show_nat :: "nat \<Rightarrow> string" where
  "show_nat n = (if n < 10 then [digit n] else show_nat (n div 10) @ [digit (n mod 10)])"
  by pat_completeness auto
termination
  by (relation "measure id") auto

declare show_nat.simps [simp del]

definition show_int :: "int \<Rightarrow> string" where
  "show_int i = (if i < 0 then ''-'' @ show_nat (nat (- i)) else show_nat (nat i))"

text \<open>\<^verbatim>\<open>Array.prototype.join\<close> and \<^verbatim>\<open>String.prototype.split\<close> on single characters. Splitting
  the empty string gives one empty segment, and a separator at either end gives an empty
  segment there.\<close>

fun join_with :: "string \<Rightarrow> string list \<Rightarrow> string" where
  "join_with sep [] = []"
| "join_with sep [x] = x"
| "join_with sep (x # y # ys) = x @ sep @ join_with sep (y # ys)"

fun split_on :: "(char \<Rightarrow> bool) \<Rightarrow> string \<Rightarrow> string list" where
  "split_on P [] = [[]]"
| "split_on P (c # cs) =
     (if P c then [] # split_on P cs
      else (case split_on P cs of
              r # rs \<Rightarrow> (c # r) # rs
            | [] \<Rightarrow> [[c]]))"

subsection \<open>\<^verbatim>\<open>Buffer.prototype.slice\<close> and \<^verbatim>\<open>Buffer.prototype.toString\<close>\<close>

text \<open>\<^verbatim>\<open>buf.slice(0, end)\<close>: a negative \<^verbatim>\<open>end\<close> counts from the end of the buffer, and
  both ends are clamped to the buffer.\<close>

definition buffer_slice0 :: "string \<Rightarrow> int \<Rightarrow> string" where
  "buffer_slice0 buf e =
     (if e < 0 then take (nat (int (length buf) + e)) buf else take (nat e) buf)"

definition replacement :: string where
  "replacement = [CHR 0xEF, CHR 0xBF, CHR 0xBD]"

text \<open>The UTF-8 decoder of \<^verbatim>\<open>toString()\<close>, composed with the encoding back to bytes.
  \<open>need\<close> is the number of continuation bytes still expected, \<open>lo\<close> and \<open>hi\<close> bound the
  next one, \<open>pend\<close> holds the bytes of the character read so far. Each maximal ill-formed
  run, and a character cut short by the end of the buffer, becomes one U+FFFD.\<close>

fun utf8_decode :: "nat \<Rightarrow> nat \<Rightarrow> nat \<Rightarrow> string \<Rightarrow> string \<Rightarrow> string" where
  "utf8_decode 0 lo hi pend [] = []"
| "utf8_decode (Suc n) lo hi pend [] = replacement"
| "utf8_decode 0 lo hi pend (b # bs) =
     (if byte b < 0x80 then b # utf8_decode 0 0x80 0xBF [] bs
      else if 0xC2 \<le> byte b \<and> byte b \<le> 0xDF then utf8_decode 1 0x80 0xBF [b] bs
      else if 0xE0 \<le> byte b \<and> byte b \<le> 0xEF then
        utf8_decode 2 (if byte b = 0xE0 then 0xA0 else 0x80)
          (if byte b = 0xED then 0x9F else 0xBF) [b] bs
      else if 0xF0 \<le> byte b \<and> byte b \<le> 0xF4 then
        utf8_decode 3 (if byte b = 0xF0 then 0x90 else 0x80)
          (if byte b = 0xF4 then 0x8F else 0xBF) [b] bs
      else replacement @ utf8_decode 0 0x80 0xBF [] bs)"
| "utf8_decode (Suc n) lo hi pend (b # bs) =
     (if lo \<le> byte b \<and> byte b \<le> hi then
        (if n = 0 then pend @ [b] @ utf8_decode 0 0x80 0xBF [] bs
         else utf8_decode n 0x80 0xBF (pend @ [b]) bs)
      else replacement @ utf8_decode 0 0x80 0xBF [] (b # bs))"

definition buffer_toString :: "string \<Rightarrow> string" where
  "buffer_toString buf = utf8_decode 0 0x80 0xBF [] buf"

subsection \<open>\<^verbatim>\<open>path.basename\<close>, \<^verbatim>\<open>path.dirname\<close>, \<^verbatim>\<open>path.join\<close> (POSIX)\<close>

definition slash :: "char \<Rightarrow> bool" where
  "slash c = (c = CHR ''/'')"

text \<open>\<^verbatim>\<open>path.basename\<close> ignores trailing separators and returns what follows the last
  separator before them.\<close>

definition basename :: "string \<Rightarrow> string" where
  "basename p = rev (takeWhile (\<lambda>c. \<not> slash c) (dropWhile slash (rev p)))"

text \<open>\<^verbatim>\<open>path.dirname\<close> scans from the last character down to the second one: it skips
  trailing separators, then the last segment, and cuts before the separator it meets.\<close>

definition dirname :: "string \<Rightarrow> string" where
  "dirname p =
     (if p = [] then ''.''
      else let hasRoot = slash (hd p);
               r = dropWhile (\<lambda>c. \<not> slash c) (dropWhile slash (rev (tl p)));
               e = length r
           in if r = [] then (if hasRoot then ''/'' else ''.'')
              else if hasRoot \<and> e = 1 then ''//''
              else take e p)"

text \<open>\<^verbatim>\<open>normalizeString\<close>: empty segments and \<^verbatim>\<open>.\<close> are dropped; \<^verbatim>\<open>..\<close> removes the segment
  before it, and is kept only where there is none to remove and the path is relative.\<close>

fun normalize_segments :: "bool \<Rightarrow> string list \<Rightarrow> string list \<Rightarrow> string list" where
  "normalize_segments allowAboveRoot res [] = res"
| "normalize_segments allowAboveRoot res (s # ss) =
     (if s = [] \<or> s = ''.'' then normalize_segments allowAboveRoot res ss
      else if s = ''..'' then
        (if res \<noteq> [] \<and> last res \<noteq> ''..'' then normalize_segments allowAboveRoot (butlast res) ss
         else if allowAboveRoot then normalize_segments allowAboveRoot (res @ [''..'']) ss
         else normalize_segments allowAboveRoot res ss)
      else normalize_segments allowAboveRoot (res @ [s]) ss)"

definition path_normalize :: "string \<Rightarrow> string" where
  "path_normalize p =
     (if p = [] then ''.''
      else let isAbsolute = slash (hd p);
               trailingSeparator = slash (last p);
               body = join_with ''/'' (normalize_segments (\<not> isAbsolute) [] (split_on slash p))
           in if body = [] then (if isAbsolute then ''/'' else if trailingSeparator then ''./'' else ''.'')
              else (if isAbsolute then ''/'' else []) @ body @ (if trailingSeparator then ''/'' else []))"

definition path_join :: "string list \<Rightarrow> string" where
  "path_join args =
     (let parts = filter (\<lambda>a. a \<noteq> []) args
      in if parts = [] then ''.'' else path_normalize (join_with ''/'' parts))"

section \<open>The filesystem and the module's state\<close>

text \<open>
  An error of the filesystem carries its \<^verbatim>\<open>code\<close>. The state holds the files (a map from
  paths to contents: \<^verbatim>\<open>pathExists\<close> is membership of its domain) and the module variable
  \<^verbatim>\<open>maxSafeBytes\<close>, initialised from \<^verbatim>\<open>CYPRESS_MAX_SAFE_FILENAME_BYTES\<close> or to 254.

  Two history variables, which the source does not have and no branch below reads, record
  what a run did: \<open>probed\<close> lists the candidate paths in the order they were checked, and
  \<open>recoveries\<close> counts the retries after \<^verbatim>\<open>ENAMETOOLONG\<close>.

  Whether \<^verbatim>\<open>outputFile\<close> accepts a path is decided by the filesystem: the parameter
  \<open>reject\<close> gives the error it answers with, if any, as a function of the path.
\<close>

datatype io_error = IoError (code: string)

record world =
  files :: "string \<rightharpoonup> string"
  maxSafeBytes :: int
  probed :: "string list"
  recoveries :: nat

definition MIN_PREFIX_BYTES :: int where
  "MIN_PREFIX_BYTES = 64"

definition pathExists :: "world \<Rightarrow> string \<Rightarrow> bool" where
  "pathExists w p = (files w p \<noteq> None)"

text \<open>\<^verbatim>\<open>fs.outputFileAsync(fullPath, '')\<close>: the file is written empty, replacing what was
  there, or the filesystem's error is raised and nothing is written.\<close>

definition outputFile :: "(string \<Rightarrow> io_error option) \<Rightarrow> string \<Rightarrow> world \<Rightarrow> io_error + world" where
  "outputFile reject p w =
     (case reject p of
        Some err \<Rightarrow> Inl err
      | None \<Rightarrow> Inr (w\<lparr>files := (files w)(p \<mapsto> [])\<rparr>))"

section \<open>\<^verbatim>\<open>ensureSafePath\<close>\<close>

text \<open>Line 64: the suffix carries the duplicate index only when \<^verbatim>\<open>num\<close> is not zero and
  \<^verbatim>\<open>overwrite\<close> is false.\<close>

definition suffix_of :: "nat \<Rightarrow> bool \<Rightarrow> string \<Rightarrow> string" where
  "suffix_of num overwrite extension =
     (if num \<noteq> 0 \<and> \<not> overwrite then '' ('' @ show_nat num @ '')'' else []) @ ''.'' @ extension"

text \<open>Lines 67 to 73: a basename of more bytes than \<^verbatim>\<open>maxSafePrefixBytes\<close> is sliced,
  decoded, and joined to the directory again.\<close>

definition truncated :: "int \<Rightarrow> string \<Rightarrow> string" where
  "truncated maxSafePrefixBytes withoutExt =
     (let filenameBuf = basename withoutExt
      in if int (length filenameBuf) > maxSafePrefixBytes
         then path_join [dirname withoutExt,
                buffer_toString (buffer_slice0 filenameBuf maxSafePrefixBytes)]
         else withoutExt)"

text \<open>The recursion of lines 63 to 96. It need not end (a filesystem could hold every
  candidate), so the function is partial: \<open>None\<close> is a run that never returns. A run that
  returns gives the path or the error thrown, and the state it leaves.\<close>

partial_function (option) ensureSafePath ::
  "(string \<Rightarrow> io_error option) \<Rightarrow> string \<Rightarrow> string \<Rightarrow> bool \<Rightarrow> nat \<Rightarrow> world
     \<Rightarrow> ((io_error + string) \<times> world) option" where
  "ensureSafePath reject withoutExt extension overwrite num w =
     (let suffix = suffix_of num overwrite extension;
          maxSafePrefixBytes = maxSafeBytes w - int (js_length suffix);
          withoutExt' = truncated maxSafePrefixBytes withoutExt;
          fullPath = withoutExt' @ suffix;
          found = pathExists w fullPath;
          w1 = w\<lparr>probed := probed w @ [fullPath]\<rparr>
      in if found \<and> \<not> overwrite
         then ensureSafePath reject withoutExt' extension overwrite (num + 1) w1
         else (case outputFile reject fullPath w1 of
                 Inr w2 \<Rightarrow> Some (Inr fullPath, w2)
               | Inl err \<Rightarrow>
                   if code err = ''ENAMETOOLONG'' \<and> maxSafePrefixBytes \<ge> MIN_PREFIX_BYTES
                   then ensureSafePath reject withoutExt' extension overwrite num
                          (w1\<lparr>maxSafeBytes := maxSafeBytes w1 - 1,
                              recoveries := recoveries w1 + 1\<rparr>)
                   else Some (Inl err, w1)))"

declare ensureSafePath.simps [code]

text \<open>The names used below for what one pass through the body computes: the bytes left
  for the basename (line 66), the path without its suffix after lines 67 to 73, and the
  candidate \<^verbatim>\<open>fullPath\<close> of line 75.\<close>

abbreviation prefixBytes :: "world \<Rightarrow> string \<Rightarrow> bool \<Rightarrow> nat \<Rightarrow> int" where
  "prefixBytes w extension overwrite num \<equiv>
     maxSafeBytes w - int (js_length (suffix_of num overwrite extension))"

abbreviation stem :: "world \<Rightarrow> string \<Rightarrow> string \<Rightarrow> bool \<Rightarrow> nat \<Rightarrow> string" where
  "stem w withoutExt extension overwrite num \<equiv>
     truncated (prefixBytes w extension overwrite num) withoutExt"

abbreviation candidate :: "world \<Rightarrow> string \<Rightarrow> string \<Rightarrow> bool \<Rightarrow> nat \<Rightarrow> string" where
  "candidate w withoutExt extension overwrite num \<equiv>
     stem w withoutExt extension overwrite num @ suffix_of num overwrite extension"

section \<open>\<^verbatim>\<open>sanitizeToString\<close> and \<^verbatim>\<open>getPath\<close>\<close>

text \<open>A title may be any JavaScript value; the ones modelled are \<^verbatim>\<open>undefined\<close>, \<^verbatim>\<open>null\<close>,
  booleans, integral numbers and strings.\<close>

datatype js_value = JUndefined | JNull | JBool bool | JNumber int | JString string

datatype js_error = Error string

text \<open>Modelled from the spec: \<^verbatim>\<open>_.toString\<close> of lodash is not under \<^verbatim>\<open>src/\<close>. The spec says
  that non-string values are "coerced to their textual representation"; lodash gives the
  empty string for \<^verbatim>\<open>null\<close> and \<^verbatim>\<open>undefined\<close> and JavaScript's own conversion otherwise.\<close>

definition lodash_toString :: "js_value \<Rightarrow> string" where
  "lodash_toString v =
     (case v of
        JUndefined \<Rightarrow> []
      | JNull \<Rightarrow> []
      | JBool b \<Rightarrow> (if b then ''true'' else ''false'')
      | JNumber i \<Rightarrow> show_int i
      | JString s \<Rightarrow> s)"

text \<open>Modelled from the spec: the package \<^verbatim>\<open>sanitize-filename\<close> is not under \<^verbatim>\<open>src/\<close>. The
  spec says that "invalid filesystem characters are stripped or replaced" and does not
  list them. The list, and the steps after the removal of characters, are those the
  package documents: the reserved characters \<^verbatim>\<open>/ ? < > \ : * | "\<close>, the control characters
  U+0000 to U+001F and U+0080 to U+009F, names made of dots only, the reserved device names
  of Windows, trailing dots and spaces, and a cut at 255 bytes that keeps characters whole.
  The package throws when its input is not a string.\<close>

definition illegal :: "char \<Rightarrow> bool" where
  "illegal c = (c \<in> set [CHR ''/'', CHR ''?'', CHR ''<'', CHR ''>'', CHR 0x5C, CHR '':'',
                        CHR ''*'', CHR ''|'', CHR 0x22])"

definition control :: "char \<Rightarrow> bool" where
  "control c = (byte c < 0x20)"

fun remove_c1 :: "string \<Rightarrow> string" where
  "remove_c1 (a # b # cs) =
     (if a = CHR 0xC2 \<and> 0x80 \<le> byte b \<and> byte b \<le> 0x9F then remove_c1 cs
      else a # remove_c1 (b # cs))"
| "remove_c1 cs = cs"

definition to_lower :: "char \<Rightarrow> char" where
  "to_lower c = (if 0x41 \<le> byte c \<and> byte c \<le> 0x5A then char_of (byte c + 0x20) else c)"

fun has_line_separator :: "string \<Rightarrow> bool" where
  "has_line_separator (a # b # c # cs) =
     ((a = CHR 0xE2 \<and> b = CHR 0x80 \<and> (c = CHR 0xA8 \<or> c = CHR 0xA9))
      \<or> has_line_separator (b # c # cs))"
| "has_line_separator cs = False"

definition dots_only :: "string \<Rightarrow> bool" where
  "dots_only s = (s \<noteq> [] \<and> list_all (\<lambda>c. c = CHR ''.'') s)"

definition windows_reserved :: "string \<Rightarrow> bool" where
  "windows_reserved s =
     (let device = map to_lower (takeWhile (\<lambda>c. c \<noteq> CHR ''.'') s);
          rest = dropWhile (\<lambda>c. c \<noteq> CHR ''.'') s
      in (device \<in> set [''con'', ''prn'', ''aux'', ''nul'']
          \<or> (length device = 4 \<and> take 3 device \<in> set [''com'', ''lpt'']
              \<and> device ! 3 \<in> set ''0123456789''))
         \<and> \<not> has_line_separator rest)"

definition strip_trailing :: "string \<Rightarrow> string" where
  "strip_trailing s = rev (dropWhile (\<lambda>c. c = CHR ''.'' \<or> c = CHR '' '') (rev s))"

definition continuation :: "char \<Rightarrow> bool" where
  "continuation c = (0x80 \<le> byte c \<and> byte c < 0xC0)"

definition truncate_utf8 :: "nat \<Rightarrow> string \<Rightarrow> string" where
  "truncate_utf8 n s =
     (if length s \<le> n then s
      else if continuation (s ! n) then rev (tl (dropWhile continuation (rev (take n s))))
      else take n s)"

definition sanitize :: "string \<Rightarrow> string" where
  "sanitize input =
     (let s1 = filter (\<lambda>c. \<not> illegal c) input;
          s2 = remove_c1 (filter (\<lambda>c. \<not> control c) s1);
          s3 = (if dots_only s2 then [] else s2);
          s4 = (if windows_reserved s3 then [] else s3);
          s5 = strip_trailing s4
      in truncate_utf8 255 s5)"

definition sanitize_filename :: "js_value \<Rightarrow> js_error + string" where
  "sanitize_filename input =
     (case input of
        JString s \<Rightarrow> Inr (sanitize s)
      | _ \<Rightarrow> Inl (Error ''Input must be string''))"

text \<open>Lines 98 to 102. The value handed to \<^verbatim>\<open>sanitize\<close> is always a string, so the function
  is written on strings; that the package's check cannot fail is part of what is proved
  about it below.\<close>

definition sanitizeToString :: "js_value \<Rightarrow> string" where
  "sanitizeToString title = sanitize (lodash_toString title)"

text \<open>The fields of \<^verbatim>\<open>Data\<close> that \<^verbatim>\<open>getPath\<close> reads. An absent \<^verbatim>\<open>specName\<close> or \<^verbatim>\<open>name\<close> is
  the empty string, absent \<^verbatim>\<open>titles\<close> the empty list, an absent \<^verbatim>\<open>testFailure\<close> is false
  and an absent \<^verbatim>\<open>testAttemptIndex\<close> is 0: the source treats each pair alike.\<close>

record Data =
  specName :: string
  name :: string
  titles :: "js_value list"
  testFailure :: bool
  testAttemptIndex :: int

definition RUNNABLE_SEPARATOR :: string where
  "RUNNABLE_SEPARATOR = '' -- ''"

definition pathSeparator :: "char \<Rightarrow> bool" where
  "pathSeparator c = (c = CHR 0x5C \<or> c = CHR ''/'')"

text \<open>Lines 106 and 107.\<close>

definition specNames :: "Data \<Rightarrow> string list" where
  "specNames data = split_on pathSeparator (specName data)"

text \<open>Lines 109 to 118: the names before the markers are appended.\<close>

definition names_initial :: "Data \<Rightarrow> string list" where
  "names_initial data =
     (if name data \<noteq> []
      then map (\<lambda>s. sanitizeToString (JString s)) (split_on pathSeparator (name data))
      else [join_with RUNNABLE_SEPARATOR (map sanitizeToString (titles data))])"

text \<open>Lines 120 to 129. \<^verbatim>\<open>names\<close> is never empty, so \<^verbatim>\<open>index\<close> is the position of its
  last element.\<close>

definition names :: "Data \<Rightarrow> string list" where
  "names data =
     (let names0 = names_initial data;
          index = length names0 - 1;
          names1 = (if testFailure data
                    then names0[index := names0 ! index @ '' (failed)'']
                    else names0);
          names2 = (if testAttemptIndex data > 0
                    then names1[index := names1 ! index
                           @ '' (attempt '' @ show_int (testAttemptIndex data + 1) @ '')'']
                    else names1)
      in names2)"

text \<open>Lines 131 to 133.\<close>

definition getPath ::
  "(string \<Rightarrow> io_error option) \<Rightarrow> Data \<Rightarrow> string \<Rightarrow> string \<Rightarrow> bool \<Rightarrow> world
     \<Rightarrow> ((io_error + string) \<times> world) option" where
  "getPath reject data ext screenshotsFolder overwrite w =
     (let withoutExt = path_join (screenshotsFolder # specNames data @ names data)
      in ensureSafePath reject withoutExt ext overwrite 0 w)"

section \<open>Filesystems and states used in the examples\<close>

text \<open>A filesystem that refuses a file whose name has more than \<open>n\<close> bytes, as most do with
  \<open>n = 255\<close>, and the state of a fresh process with the given files and budget.\<close>

definition limit_fs :: "nat \<Rightarrow> string \<Rightarrow> io_error option" where
  "limit_fs n p = (if n < length (basename p) then Some (IoError ''ENAMETOOLONG'') else None)"

definition world_of :: "(string \<times> string) list \<Rightarrow> int \<Rightarrow> world" where
  "world_of fs budget = \<lparr>files = map_of fs, maxSafeBytes = budget, probed = [], recoveries = 0\<rparr>"

section \<open>One pass through the body of \<^verbatim>\<open>ensureSafePath\<close>\<close>

text \<open>The four ways a pass can end: the candidate exists and the index moves on; the file
  is created; creation fails for its length and the budget shrinks; the error is thrown.\<close>

lemma ensureSafePath_next:
  assumes "\<not> overwrite"
    and "pathExists w (candidate w withoutExt extension overwrite num)"
  shows "ensureSafePath reject withoutExt extension overwrite num w =
         ensureSafePath reject (stem w withoutExt extension overwrite num) extension overwrite
           (num + 1) (w\<lparr>probed := probed w @ [candidate w withoutExt extension overwrite num]\<rparr>)"
  using assms by (subst ensureSafePath.simps) (simp add: Let_def pathExists_def)

lemma ensureSafePath_resolved:
  assumes "overwrite \<or> \<not> pathExists w (candidate w withoutExt extension overwrite num)"
    and "reject (candidate w withoutExt extension overwrite num) = None"
  shows "ensureSafePath reject withoutExt extension overwrite num w =
         Some (Inr (candidate w withoutExt extension overwrite num),
               w\<lparr>probed := probed w @ [candidate w withoutExt extension overwrite num],
                  files := (files w)(candidate w withoutExt extension overwrite num \<mapsto> [])\<rparr>)"
  using assms by (subst ensureSafePath.simps) (auto simp add: Let_def pathExists_def outputFile_def)

lemma ensureSafePath_shrink:
  assumes "overwrite \<or> \<not> pathExists w (candidate w withoutExt extension overwrite num)"
    and "reject (candidate w withoutExt extension overwrite num) = Some err"
    and "code err = ''ENAMETOOLONG''"
    and "MIN_PREFIX_BYTES \<le> prefixBytes w extension overwrite num"
  shows "ensureSafePath reject withoutExt extension overwrite num w =
         ensureSafePath reject (stem w withoutExt extension overwrite num) extension overwrite num
           (w\<lparr>probed := probed w @ [candidate w withoutExt extension overwrite num],
              maxSafeBytes := maxSafeBytes w - 1,
              recoveries := recoveries w + 1\<rparr>)"
  using assms by (subst ensureSafePath.simps) (auto simp add: Let_def pathExists_def outputFile_def)

lemma ensureSafePath_failed:
  assumes "overwrite \<or> \<not> pathExists w (candidate w withoutExt extension overwrite num)"
    and "reject (candidate w withoutExt extension overwrite num) = Some err"
    and "code err \<noteq> ''ENAMETOOLONG'' \<or> prefixBytes w extension overwrite num < MIN_PREFIX_BYTES"
  shows "ensureSafePath reject withoutExt extension overwrite num w =
         Some (Inl err, w\<lparr>probed := probed w @ [candidate w withoutExt extension overwrite num]\<rparr>)"
  using assms by (subst ensureSafePath.simps) (auto simp add: Let_def pathExists_def outputFile_def)

section \<open>Decimal numerals and the length of the suffix\<close>

lemma length_show_nat_pos: "0 < length (show_nat n)"
  by (subst show_nat.simps) simp

lemma length_show_nat_mono: "k \<le> n \<Longrightarrow> length (show_nat k) \<le> length (show_nat n)"
proof (induction n arbitrary: k rule: show_nat.induct)
  case (1 n)
  show ?case
  proof (cases "n < 10")
    case True
    with "1.prems" have "k < 10" by simp
    with True show ?thesis by (simp add: show_nat.simps)
  next
    case False
    show ?thesis
    proof (cases "k < 10")
      case True
      then have "length (show_nat k) = 1" by (simp add: show_nat.simps)
      moreover have "1 \<le> length (show_nat n)"
        using length_show_nat_pos [of n] by linarith
      ultimately show ?thesis by linarith
    next
      case k: False
      from "1.prems" have "k div 10 \<le> n div 10" by (rule div_le_mono)
      with False have "length (show_nat (k div 10)) \<le> length (show_nat (n div 10))"
        by (intro "1.IH") simp_all
      moreover have "show_nat n = show_nat (n div 10) @ [digit (n mod 10)]"
        using False by (subst show_nat.simps) simp
      moreover have "show_nat k = show_nat (k div 10) @ [digit (k mod 10)]"
        using k by (subst show_nat.simps) simp
      ultimately show ?thesis by simp
    qed
  qed
qed

lemma units_digit: "d < 10 \<Longrightarrow> units (digit d) = 1"
proof -
  assume "d < 10"
  then have "d \<in> {0, 1, 2, 3, 4, 5, 6, 7, 8, 9}" by auto
  then show ?thesis
    by (auto simp add: digit_def units_def byte_def)
qed

lemma js_length_append: "js_length (xs @ ys) = js_length xs + js_length ys"
  by (simp add: js_length_def)

lemma js_length_show_nat: "js_length (show_nat n) = length (show_nat n)"
proof (induction n rule: show_nat.induct)
  case (1 n)
  show ?case
  proof (cases "n < 10")
    case True
    then show ?thesis by (simp add: show_nat.simps js_length_def units_digit)
  next
    case False
    have "show_nat n = show_nat (n div 10) @ [digit (n mod 10)]"
      using False by (subst show_nat.simps) simp
    moreover have "js_length [digit (n mod 10)] = 1"
      by (simp add: js_length_def units_digit)
    ultimately show ?thesis using False "1.IH" by (simp add: js_length_append)
  qed
qed

lemma show_nat_bound: "n < 10 ^ length (show_nat n)"
proof (induction n rule: show_nat.induct)
  case (1 n)
  show ?case
  proof (cases "n < 10")
    case True
    then show ?thesis by (simp add: show_nat.simps)
  next
    case False
    have eq: "show_nat n = show_nat (n div 10) @ [digit (n mod 10)]"
      using False by (subst show_nat.simps) simp
    from False "1.IH" have "n div 10 < 10 ^ length (show_nat (n div 10))" by simp
    then have "n div 10 + 1 \<le> 10 ^ length (show_nat (n div 10))" by simp
    then have "10 * (n div 10 + 1) \<le> 10 * 10 ^ length (show_nat (n div 10))"
      by (rule mult_le_mono2)
    moreover have "n < 10 * (n div 10 + 1)" by simp
    ultimately show ?thesis by (simp add: eq)
  qed
qed

lemma js_length_suffix:
  "js_length (suffix_of num overwrite ext) =
     (if num \<noteq> 0 \<and> \<not> overwrite then 3 + length (show_nat num) else 0) + 1 + js_length ext"
  by (simp add: suffix_of_def js_length_def units_def byte_def
        js_length_show_nat [unfolded js_length_def])

lemma js_length_suffix_mono:
  "k \<le> n \<Longrightarrow> js_length (suffix_of k False ext) \<le> js_length (suffix_of n False ext)"
  using length_show_nat_mono [of k n] by (simp add: js_length_suffix)

lemma truncated_fits:
  "int (length (basename withoutExt)) \<le> m \<Longrightarrow> truncated m withoutExt = withoutExt"
  by (simp add: truncated_def Let_def)


section \<open>Walking over taken names\<close>

lemma pathExists_probed [simp]: "pathExists (w\<lparr>probed := ps\<rparr>) p = pathExists w p"
  by (simp add: pathExists_def)

lemma dedup_walk:
  assumes fits: "int (length (basename withoutExt)) \<le> prefixBytes w ext False N"
    and taken: "\<forall>k. j \<le> k \<and> k < N \<longrightarrow> pathExists w (withoutExt @ suffix_of k False ext)"
    and free: "\<not> pathExists w (withoutExt @ suffix_of N False ext)"
    and accepted: "reject (withoutExt @ suffix_of N False ext) = None"
    and "j \<le> N"
  shows "ensureSafePath reject withoutExt ext False j w =
         Some (Inr (withoutExt @ suffix_of N False ext),
               w\<lparr>probed := probed w @ map (\<lambda>k. withoutExt @ suffix_of k False ext) [j..<Suc N],
                  files := (files w)(withoutExt @ suffix_of N False ext \<mapsto> [])\<rparr>)"
  using assms
proof (induction "N - j" arbitrary: j w)
  case 0
  then have j: "j = N" by simp
  have st: "stem w withoutExt ext False N = withoutExt"
    using "0.prems"(1) by (rule truncated_fits)
  show ?case
    using "0.prems"(3,4) unfolding j
    by (subst ensureSafePath_resolved) (simp_all add: st)
next
  case (Suc d)
  then have lt: "j < N" by simp
  have "js_length (suffix_of j False ext) \<le> js_length (suffix_of N False ext)"
    using lt by (intro js_length_suffix_mono) simp
  with Suc.prems(1) have "int (length (basename withoutExt)) \<le> prefixBytes w ext False j"
    by simp
  then have st: "stem w withoutExt ext False j = withoutExt"
    by (rule truncated_fits)
  have ex: "pathExists w (withoutExt @ suffix_of j False ext)"
    using Suc.prems(2) lt by simp
  let ?w1 = "w\<lparr>probed := probed w @ [withoutExt @ suffix_of j False ext]\<rparr>"
  have step: "ensureSafePath reject withoutExt ext False j w =
              ensureSafePath reject withoutExt ext False (Suc j) ?w1"
    using ex by (subst ensureSafePath_next) (simp_all add: st)
  have rest: "ensureSafePath reject withoutExt ext False (Suc j) ?w1 =
         Some (Inr (withoutExt @ suffix_of N False ext),
               ?w1\<lparr>probed := probed ?w1 @ map (\<lambda>k. withoutExt @ suffix_of k False ext) [Suc j..<Suc N],
                  files := (files ?w1)(withoutExt @ suffix_of N False ext \<mapsto> [])\<rparr>)"
    using Suc.hyps(2) Suc.prems lt
    by (intro Suc.hyps(1)) simp_all
  have "[j..<Suc N] = j # [Suc j..<Suc N]"
    using lt by (simp add: upt_conv_Cons)
  then show ?case
    unfolding step rest by simp
qed


section \<open>What a run that returns has done to the state\<close>

lemma run_accounting:
  assumes "ensureSafePath reject withoutExt ext overwrite num w = Some y"
  shows "maxSafeBytes (snd y) + int (recoveries (snd y)) = maxSafeBytes w + int (recoveries w)
         \<and> recoveries w \<le> recoveries (snd y)
         \<and> min (maxSafeBytes w) MIN_PREFIX_BYTES \<le> maxSafeBytes (snd y)
         \<and> (\<exists>ps. probed (snd y) = probed w @ candidate w withoutExt ext overwrite num # ps)"
  using assms
proof (induction rule: ensureSafePath.raw_induct [rotated 1, consumes 1, case_names 1])
  case (1 f reject withoutExt ext overwrite num w y)
  let ?c = "candidate w withoutExt ext overwrite num"
  let ?w1 = "w\<lparr>probed := probed w @ [?c]\<rparr>"
  show ?case
  proof (cases "pathExists w ?c \<and> \<not> overwrite")
    case True
    then have "pathExists w ?c" and "\<not> overwrite" by blast+
    with "1.hyps" have "f reject (stem w withoutExt ext overwrite num) ext overwrite (num + 1) ?w1 = Some y"
      by (simp add: Let_def)
    from "1.IH" [OF this] show ?thesis by auto
  next
    case False
    show ?thesis
    proof (cases "reject ?c")
      case None
      with False "1.hyps" have "y = (Inr ?c, ?w1\<lparr>files := (files ?w1)(?c \<mapsto> [])\<rparr>)"
        by (auto simp add: Let_def outputFile_def)
      then show ?thesis by simp
    next
      case (Some err)
      show ?thesis
      proof (cases "code err = ''ENAMETOOLONG'' \<and> MIN_PREFIX_BYTES \<le> prefixBytes w ext overwrite num")
        case True
        let ?w2 = "?w1\<lparr>maxSafeBytes := maxSafeBytes ?w1 - 1, recoveries := recoveries ?w1 + 1\<rparr>"
        from True False Some "1.hyps"
        have "f reject (stem w withoutExt ext overwrite num) ext overwrite num ?w2 = Some y"
          by (auto simp add: Let_def outputFile_def)
        moreover have "1 \<le> js_length (suffix_of num overwrite ext)"
          by (simp add: js_length_suffix)
        ultimately show ?thesis
          using "1.IH" [of reject "stem w withoutExt ext overwrite num" ext overwrite num ?w2 y] True
          by auto
      next
        case no: False
        with False Some "1.hyps" have "y = (Inl err, ?w1)"
          by (auto simp add: Let_def outputFile_def)
        then show ?thesis by simp
      qed
    qed
  qed
qed


section \<open>Overwriting\<close>

lemma suffix_of_overwrite: "suffix_of num True ext = ''.'' @ ext"
  by (simp add: suffix_of_def)

lemma overwrite_any_num:
  assumes "ensureSafePath reject withoutExt ext overwrite num w = Some y"
  shows "overwrite \<longrightarrow> ensureSafePath reject withoutExt ext True n w = Some y"
  using assms
proof (induction arbitrary: n rule: ensureSafePath.raw_induct [rotated 1, consumes 1, case_names 1])
  case (1 f reject withoutExt ext overwrite num w y)
  show ?case
  proof
    assume ov: overwrite
    let ?c = "candidate w withoutExt ext True n"
    let ?w1 = "w\<lparr>probed := probed w @ [?c]\<rparr>"
    have same: "suffix_of num True ext = suffix_of n True ext"
      by (simp add: suffix_of_overwrite)
    show "ensureSafePath reject withoutExt ext True n w = Some y"
    proof (cases "reject ?c")
      case None
      with ov "1.hyps" have "y = (Inr ?c, ?w1\<lparr>files := (files ?w1)(?c \<mapsto> [])\<rparr>)"
        by (auto simp add: Let_def outputFile_def same)
      with None show ?thesis
        by (subst ensureSafePath_resolved) simp_all
    next
      case (Some err)
      show ?thesis
      proof (cases "code err = ''ENAMETOOLONG'' \<and> MIN_PREFIX_BYTES \<le> prefixBytes w ext True n")
        case True
        let ?w2 = "?w1\<lparr>maxSafeBytes := maxSafeBytes ?w1 - 1, recoveries := recoveries ?w1 + 1\<rparr>"
        from True ov Some "1.hyps"
        have "f reject (stem w withoutExt ext True n) ext overwrite num ?w2 = Some y"
          by (auto simp add: Let_def outputFile_def same)
        then have "ensureSafePath reject (stem w withoutExt ext True n) ext True n ?w2 = Some y"
          using "1.IH" ov by blast
        with True Some show ?thesis
          by (subst ensureSafePath_shrink [where err = err]) simp_all
      next
        case False
        with ov Some "1.hyps" have "y = (Inl err, ?w1)"
          by (auto simp add: Let_def outputFile_def same)
        with False Some show ?thesis
          by (subst ensureSafePath_failed [where err = err]) auto
      qed
    qed
  qed
qed

lemma overwrite_num_irrelevant:
  "ensureSafePath reject withoutExt ext True num w = ensureSafePath reject withoutExt ext True n w"
proof (cases "ensureSafePath reject withoutExt ext True num w")
  case (Some y)
  then show ?thesis using overwrite_any_num [OF Some, of n] by simp
next
  case None
  show ?thesis
  proof (cases "ensureSafePath reject withoutExt ext True n w")
    case (Some y)
    then show ?thesis using overwrite_any_num [OF Some, of num] by simp
  next
    case n: None
    with None show ?thesis by simp
  qed
qed

section \<open>Termination\<close>


lemma taken_index_bound:
  assumes "length (s @ suffix_of num False ext) \<le> L"
  shows "num < 10 ^ L"
proof (cases "num = 0")
  case False
  with assms have "length (show_nat num) \<le> L"
    by (simp add: suffix_of_def)
  then have "(10::nat) ^ length (show_nat num) \<le> 10 ^ L"
    by (intro power_increasing) simp_all
  with show_nat_bound [of num] show ?thesis by linarith
next
  case True
  then show ?thesis by simp
qed

lemma ensureSafePath_terminates:
  assumes "\<forall>p. pathExists w p \<longrightarrow> length p \<le> L"
  shows "\<exists>y. ensureSafePath reject withoutExt ext overwrite num w = Some y"
  using assms
proof (induction "nat (maxSafeBytes w)" arbitrary: w withoutExt num rule: less_induct)
  case (less w withoutExt num)
  note budget_IH = less.hyps and bound = less.prems
  have "\<exists>y. ensureSafePath reject x ext overwrite n w' = Some y"
    if "maxSafeBytes w' = maxSafeBytes w" and "files w' = files w" for w' x n
    using that
  proof (induction "10 ^ L - n" arbitrary: n x w' rule: less_induct)
    case (less n x w')
    note index_IH = less.hyps and same = less.prems
    let ?c = "candidate w' x ext overwrite n"
    let ?w1 = "w'\<lparr>probed := probed w' @ [?c]\<rparr>"
    have ex: "pathExists w' p = pathExists w p" for p
      using same by (simp add: pathExists_def)
    show ?case
    proof (cases "pathExists w' ?c \<and> \<not> overwrite")
      case True
      then have found: "pathExists w' ?c" and ov: "\<not> overwrite" by blast+
      from found have "length ?c \<le> L" using bound ex by blast
      with ov have "n < 10 ^ L" using taken_index_bound by simp
      then have "10 ^ L - (n + 1) < 10 ^ L - n" by simp
      then have "\<exists>y. ensureSafePath reject (stem w' x ext overwrite n) ext overwrite (n + 1) ?w1 = Some y"
        using same by (intro index_IH) simp_all
      then show ?thesis
        using found ov by (subst ensureSafePath_next) simp_all
    next
      case False
      then have free: "overwrite \<or> \<not> pathExists w' ?c" by blast
      show ?thesis
      proof (cases "reject ?c")
        case None
        with free show ?thesis by (subst ensureSafePath_resolved) simp_all
      next
        case (Some err)
        show ?thesis
        proof (cases "code err = ''ENAMETOOLONG'' \<and> MIN_PREFIX_BYTES \<le> prefixBytes w' ext overwrite n")
          case True
          let ?w2 = "w'\<lparr>probed := probed w' @ [?c], maxSafeBytes := maxSafeBytes w' - 1,
                        recoveries := recoveries w' + 1\<rparr>"
          from True same have "nat (maxSafeBytes ?w2) < nat (maxSafeBytes w)"
            by (simp add: MIN_PREFIX_BYTES_def)
          moreover have "\<forall>p. pathExists ?w2 p \<longrightarrow> length p \<le> L"
            using bound same by (simp add: pathExists_def)
          ultimately have "\<exists>y. ensureSafePath reject (stem w' x ext overwrite n) ext overwrite n ?w2 = Some y"
            by (rule budget_IH)
          with True Some free show ?thesis
            by (subst ensureSafePath_shrink [where err = err]) simp_all
        next
          case no: False
          with Some free show ?thesis
            by (subst ensureSafePath_failed [where err = err]) auto
        qed
      qed
    qed
  qed
  then show ?case by simp
qed

section \<open>Overwriting: the outcome depends on neither the index nor the files\<close>

lemma overwrite_outcome:
  assumes "ensureSafePath reject withoutExt ext overwrite num w = Some y"
  shows "overwrite \<longrightarrow>
           (\<exists>w2. ensureSafePath reject withoutExt ext True n (w\<lparr>files := F\<rparr>) = Some (fst y, w2)
                 \<and> maxSafeBytes w2 = maxSafeBytes (snd y))
           \<and> (\<forall>p. fst y = Inr p \<longrightarrow> (\<exists>s. p = s @ ''.'' @ ext))"
  using assms
proof (induction arbitrary: n F rule: ensureSafePath.raw_induct [rotated 1, consumes 1, case_names 1])
  case (1 f reject withoutExt ext overwrite num w y)
  show ?case
  proof
    assume ov: overwrite
    let ?c = "candidate w withoutExt ext True n"
    let ?w1 = "w\<lparr>probed := probed w @ [?c]\<rparr>"
    let ?v = "w\<lparr>files := F\<rparr>"
    have same: "suffix_of num True ext = suffix_of n True ext"
      by (simp add: suffix_of_overwrite)
    have cv: "candidate ?v withoutExt ext True n = ?c" by simp
    show "(\<exists>w2. ensureSafePath reject withoutExt ext True n ?v = Some (fst y, w2)
                 \<and> maxSafeBytes w2 = maxSafeBytes (snd y))
           \<and> (\<forall>p. fst y = Inr p \<longrightarrow> (\<exists>s. p = s @ ''.'' @ ext))"
    proof (cases "reject ?c")
      case None
      with ov "1.hyps" have y: "y = (Inr ?c, ?w1\<lparr>files := (files ?w1)(?c \<mapsto> [])\<rparr>)"
        by (auto simp add: Let_def outputFile_def same)
      have "ensureSafePath reject withoutExt ext True n ?v =
              Some (Inr ?c, ?v\<lparr>probed := probed ?v @ [?c], files := (files ?v)(?c \<mapsto> [])\<rparr>)"
        using None ensureSafePath_resolved [where overwrite = True and w = ?v
            and withoutExt = withoutExt and extension = ext and num = n and reject = reject]
        by simp
      with y show ?thesis by (simp add: suffix_of_overwrite)
    next
      case (Some err)
      show ?thesis
      proof (cases "code err = ''ENAMETOOLONG'' \<and> MIN_PREFIX_BYTES \<le> prefixBytes w ext True n")
        case True
        let ?w2 = "?w1\<lparr>maxSafeBytes := maxSafeBytes ?w1 - 1, recoveries := recoveries ?w1 + 1\<rparr>"
        from True ov Some "1.hyps"
        have "f reject (stem w withoutExt ext True n) ext overwrite num ?w2 = Some y"
          by (auto simp add: Let_def outputFile_def same)
        from "1.IH" [OF this, of n F] ov
        have IH: "(\<exists>w2. ensureSafePath reject (stem w withoutExt ext True n) ext True n
                          (?w2\<lparr>files := F\<rparr>) = Some (fst y, w2)
                       \<and> maxSafeBytes w2 = maxSafeBytes (snd y))
                  \<and> (\<forall>p. fst y = Inr p \<longrightarrow> (\<exists>s. p = s @ ''.'' @ ext))"
          by blast
        obtain f0 b0 p0 r0 where w: "w = \<lparr>files = f0, maxSafeBytes = b0, probed = p0, recoveries = r0\<rparr>"
          by (cases w) auto
        have "ensureSafePath reject withoutExt ext True n ?v =
              ensureSafePath reject (stem ?v withoutExt ext True n) ext True n
                (?v\<lparr>probed := probed ?v @ [candidate ?v withoutExt ext True n],
                 maxSafeBytes := maxSafeBytes ?v - 1, recoveries := recoveries ?v + 1\<rparr>)"
          using True Some
          by (intro ensureSafePath_shrink [where err = err]) simp_all
        with IH show ?thesis by (simp add: w)
      next
        case False
        with ov Some "1.hyps" have y: "y = (Inl err, ?w1)"
          by (auto simp add: Let_def outputFile_def same)
        have "ensureSafePath reject withoutExt ext True n ?v =
                Some (Inl err, ?v\<lparr>probed := probed ?v @ [?c]\<rparr>)"
          using False Some ensureSafePath_failed [where overwrite = True and w = ?v
            and withoutExt = withoutExt and extension = ext and num = n and reject = reject
            and err = err]
          by auto
        with y show ?thesis by simp
      qed
    qed
  qed
qed

lemma overwrite_returns:
  "\<exists>y. ensureSafePath reject withoutExt ext True num w = Some y"
proof -
  have "\<forall>p. pathExists (w\<lparr>files := Map.empty\<rparr>) p \<longrightarrow> length p \<le> 0"
    by (simp add: pathExists_def)
  then obtain y where
    run: "ensureSafePath reject withoutExt ext True num (w\<lparr>files := Map.empty\<rparr>) = Some y"
    using ensureSafePath_terminates by blast
  from overwrite_outcome [OF run, of num "files w"] show ?thesis by auto
qed

section \<open>The names built by \<^verbatim>\<open>getPath\<close>\<close>

lemma split_on_not_Nil: "split_on P s \<noteq> []"
  by (induction s) (simp_all split: list.splits)

lemma names_initial_not_Nil: "names_initial data \<noteq> []"
  by (simp add: names_initial_def split_on_not_Nil)

lemma names_shape:
  "names data = butlast (names_initial data)
     @ [last (names_initial data)
        @ (if testFailure data then '' (failed)'' else [])
        @ (if testAttemptIndex data > 0
           then '' (attempt '' @ show_int (testAttemptIndex data + 1) @ '')'' else [])]"
proof -
  obtain bs l where ns: "names_initial data = bs @ [l]"
    using names_initial_not_Nil [of data] by (cases "names_initial data" rule: rev_cases) auto
  show ?thesis
    by (simp add: names_def Let_def ns nth_append)
qed

text \<open>Claim C7. When \<^verbatim>\<open>testFailure\<close> is set, \<^verbatim>\<open>getPath\<close> appends \<^verbatim>\<open>" (failed)"\<close> to the last
  name; when \<^verbatim>\<open>testAttemptIndex\<close> is positive it appends \<^verbatim>\<open>" (attempt N)"\<close> with \<open>N\<close> one more
  than the index; when both hold the failure marker comes first. The names before the last
  are left as they were.\<close>

theorem markers_appended_to_last_name:
  "butlast (names data) = butlast (names_initial data)
   \<and> (testFailure data \<and> testAttemptIndex data > 0 \<longrightarrow>
        last (names data) = last (names_initial data) @ '' (failed)''
          @ '' (attempt '' @ show_int (testAttemptIndex data + 1) @ '')'')
   \<and> (testFailure data \<and> \<not> testAttemptIndex data > 0 \<longrightarrow>
        last (names data) = last (names_initial data) @ '' (failed)'')
   \<and> (\<not> testFailure data \<and> testAttemptIndex data > 0 \<longrightarrow>
        last (names data) = last (names_initial data)
          @ '' (attempt '' @ show_int (testAttemptIndex data + 1) @ '')'')
   \<and> (\<not> testFailure data \<and> \<not> testAttemptIndex data > 0 \<longrightarrow>
        last (names data) = last (names_initial data))"
  by (simp add: names_shape)

text \<open>The first scenario of the spec, failed and on its second attempt.\<close>

theorem markers_appended_witness:
  "testFailure \<lparr>specName = ''spec1.cy.js'', name = [],
      titles = [JString ''spec1'', JString ''testCase1''],
      testFailure = True, testAttemptIndex = 1\<rparr>
   \<and> testAttemptIndex \<lparr>specName = ''spec1.cy.js'', name = [],
      titles = [JString ''spec1'', JString ''testCase1''],
      testFailure = True, testAttemptIndex = 1\<rparr> > 0
   \<and> last (names \<lparr>specName = ''spec1.cy.js'', name = [],
      titles = [JString ''spec1'', JString ''testCase1''],
      testFailure = True, testAttemptIndex = 1\<rparr>)
     = ''spec1 -- testCase1 (failed) (attempt 2)''"
proof -
  let ?d = "\<lparr>specName = ''spec1.cy.js'', name = [],
      titles = [JString ''spec1'', JString ''testCase1''],
      testFailure = True, testAttemptIndex = 1\<rparr>"
  have init: "names_initial ?d = [''spec1 -- testCase1'']" by code_simp
  have two: "show_int 2 = ''2''" by code_simp
  show ?thesis
    using markers_appended_to_last_name [of ?d] by (simp add: init two)
qed

section \<open>Names already taken\<close>

text \<open>Claim C1, as amended. Let \<open>N \<ge> 1\<close> and \<^verbatim>\<open>overwrite\<close> be false. If the canonical path
  and its variants \<^verbatim>\<open>" (1)"\<close> to \<^verbatim>\<open>" (N-1)"\<close> exist, the variant \<^verbatim>\<open>" (N)"\<close> does not, the
  basename followed by \<^verbatim>\<open>" (N).ext"\<close> fits in \<^verbatim>\<open>maxSafeBytes\<close> and the filesystem accepts the
  new file, then \<^verbatim>\<open>ensureSafePath\<close> returns the canonical name with the suffix \<^verbatim>\<open>" (N)"\<close>,
  creates an empty file there, and leaves every file that existed as it was.\<close>

theorem next_free_index_when_name_fits:
  assumes "1 \<le> N"
    and fits: "int (length (basename withoutExt))
                 + int (js_length ('' ('' @ show_nat N @ '').'' @ ext)) \<le> maxSafeBytes w"
    and canonical: "pathExists w (withoutExt @ ''.'' @ ext)"
    and variants: "\<forall>k. 1 \<le> k \<and> k < N \<longrightarrow>
                     pathExists w (withoutExt @ '' ('' @ show_nat k @ '').'' @ ext)"
    and free: "\<not> pathExists w (withoutExt @ '' ('' @ show_nat N @ '').'' @ ext)"
    and accepted: "reject (withoutExt @ '' ('' @ show_nat N @ '').'' @ ext) = None"
  shows "\<exists>w'. ensureSafePath reject withoutExt ext False 0 w
                 = Some (Inr (withoutExt @ '' ('' @ show_nat N @ '').'' @ ext), w')
              \<and> files w' = (files w)(withoutExt @ '' ('' @ show_nat N @ '').'' @ ext \<mapsto> [])
              \<and> (\<forall>p. pathExists w p \<longrightarrow> files w' p = files w p)
              \<and> maxSafeBytes w' = maxSafeBytes w"
proof -
  let ?target = "withoutExt @ '' ('' @ show_nat N @ '').'' @ ext"
  from \<open>1 \<le> N\<close> have sN: "suffix_of N False ext = '' ('' @ show_nat N @ '').'' @ ext"
    by (simp add: suffix_of_def)
  have taken: "\<forall>k. 0 \<le> k \<and> k < N \<longrightarrow> pathExists w (withoutExt @ suffix_of k False ext)"
  proof (intro allI impI)
    fix k assume k: "0 \<le> k \<and> k < N"
    show "pathExists w (withoutExt @ suffix_of k False ext)"
    proof (cases "k = 0")
      case True
      with canonical show ?thesis by (simp add: suffix_of_def)
    next
      case False
      with k variants show ?thesis by (simp add: suffix_of_def)
    qed
  qed
  have "ensureSafePath reject withoutExt ext False 0 w =
         Some (Inr (withoutExt @ suffix_of N False ext),
               w\<lparr>probed := probed w @ map (\<lambda>k. withoutExt @ suffix_of k False ext) [0..<Suc N],
                  files := (files w)(withoutExt @ suffix_of N False ext \<mapsto> [])\<rparr>)"
    using fits taken free accepted by (intro dedup_walk) (simp_all add: sN)
  moreover have "\<forall>p. pathExists w p \<longrightarrow> ((files w)(?target \<mapsto> [])) p = files w p"
    using free by auto
  ultimately show ?thesis by (simp add: sN)
qed

text \<open>Two earlier artifacts, \<^verbatim>\<open>abc.png\<close> and \<^verbatim>\<open>abc (1).png\<close>: the third is \<^verbatim>\<open>abc (2).png\<close>.\<close>

theorem next_free_index_witness:
  "(1::nat) \<le> 2
   \<and> int (length (basename ''/s/abc'')) + int (js_length ('' ('' @ show_nat 2 @ '').'' @ ''png''))
        \<le> maxSafeBytes (world_of [(''/s/abc.png'', ''x''), (''/s/abc (1).png'', ''y'')] 254)
   \<and> pathExists (world_of [(''/s/abc.png'', ''x''), (''/s/abc (1).png'', ''y'')] 254) ''/s/abc.png''
   \<and> pathExists (world_of [(''/s/abc.png'', ''x''), (''/s/abc (1).png'', ''y'')] 254) ''/s/abc (1).png''
   \<and> \<not> pathExists (world_of [(''/s/abc.png'', ''x''), (''/s/abc (1).png'', ''y'')] 254) ''/s/abc (2).png''
   \<and> limit_fs 255 ''/s/abc (2).png'' = None
   \<and> (\<exists>w'. ensureSafePath (limit_fs 255) ''/s/abc'' ''png'' False 0
               (world_of [(''/s/abc.png'', ''x''), (''/s/abc (1).png'', ''y'')] 254)
             = Some (Inr ''/s/abc (2).png'', w')
           \<and> files w' ''/s/abc (2).png'' = Some []
           \<and> files w' ''/s/abc.png'' = Some ''x''
           \<and> files w' ''/s/abc (1).png'' = Some ''y'')"
proof -
  let ?w = "world_of [(''/s/abc.png'', ''x''), (''/s/abc (1).png'', ''y'')] 254"
  have s1: "show_nat 1 = ''1''" and s2: "show_nat 2 = ''2''" by code_simp+
  have fits: "int (length (basename ''/s/abc'')) + int (js_length ('' ('' @ show_nat 2 @ '').'' @ ''png''))
                \<le> maxSafeBytes ?w" by code_simp
  have e0: "pathExists ?w ''/s/abc.png''" by code_simp
  have e1: "pathExists ?w ''/s/abc (1).png''" by code_simp
  have e2: "\<not> pathExists ?w ''/s/abc (2).png''" by code_simp
  have acc: "limit_fs 255 ''/s/abc (2).png'' = None" by code_simp
  have variants: "\<forall>k. 1 \<le> k \<and> k < 2 \<longrightarrow>
                     pathExists ?w (''/s/abc'' @ '' ('' @ show_nat k @ '').'' @ ''png'')"
  proof (intro allI impI)
    fix k :: nat assume "1 \<le> k \<and> k < 2"
    then have "k = 1" by simp
    with e1 s1 show "pathExists ?w (''/s/abc'' @ '' ('' @ show_nat k @ '').'' @ ''png'')" by simp
  qed
  have f0: "files ?w ''/s/abc.png'' = Some ''x''" and f1: "files ?w ''/s/abc (1).png'' = Some ''y''"
    by (simp_all add: world_of_def)
  from next_free_index_when_name_fits [where N = 2 and withoutExt = "''/s/abc''" and ext = "''png''"
      and w = ?w and reject = "limit_fs 255", OF _ fits _ variants]
    e0 e2 acc s2
  obtain w' where run: "ensureSafePath (limit_fs 255) ''/s/abc'' ''png'' False 0 ?w
                          = Some (Inr ''/s/abc (2).png'', w')"
    and new: "files w' = (files ?w)(''/s/abc (2).png'' \<mapsto> [])"
    and old: "\<forall>p. pathExists ?w p \<longrightarrow> files w' p = files ?w p"
    by auto
  from old e0 e1 f0 f1 have "files w' ''/s/abc.png'' = Some ''x''" "files w' ''/s/abc (1).png'' = Some ''y''"
    by auto
  moreover from new have "files w' ''/s/abc (2).png'' = Some []" by simp
  ultimately show ?thesis using fits e0 e1 e2 acc run by simp
qed

text \<open>Without the condition on the length the claim fails, with one artifact at the
  canonical name (\<open>N = 1\<close>). A basename of 250 bytes fits with \<^verbatim>\<open>".png"\<close> but not with
  \<^verbatim>\<open>" (1).png"\<close>: what is returned is not the canonical name with \<^verbatim>\<open>" (1)"\<close> but a name cut to
  246 bytes. And when such a basename itself ends in \<^verbatim>\<open>" (1)"\<close>, the name cut for index 1 is
  the existing file again, and the path returned carries \<^verbatim>\<open>" (2)"\<close>.\<close>

theorem truncated_variant_counterexample:
  "pathExists (world_of [(''/s/'' @ replicate 250 CHR ''a'' @ ''.png'', ''x'')] 254)
     (''/s/'' @ replicate 250 CHR ''a'' @ ''.png'')
   \<and> map_option fst
       (ensureSafePath (limit_fs 255) (''/s/'' @ replicate 250 CHR ''a'') ''png'' False 0
          (world_of [(''/s/'' @ replicate 250 CHR ''a'' @ ''.png'', ''x'')] 254))
     = Some (Inr (''/s/'' @ replicate 246 CHR ''a'' @ '' (1).png''))
   \<and> ''/s/'' @ replicate 246 CHR ''a'' @ '' (1).png''
       \<noteq> (''/s/'' @ replicate 250 CHR ''a'') @ '' ('' @ show_nat 1 @ '').'' @ ''png''
   \<and> pathExists (world_of [(''/s/'' @ replicate 246 CHR ''a'' @ '' (1).png'', ''x'')] 254)
       ((''/s/'' @ replicate 246 CHR ''a'' @ '' (1)'') @ ''.png'')
   \<and> map_option fst
       (ensureSafePath (limit_fs 255) (''/s/'' @ replicate 246 CHR ''a'' @ '' (1)'') ''png'' False 0
          (world_of [(''/s/'' @ replicate 246 CHR ''a'' @ '' (1).png'', ''x'')] 254))
     = Some (Inr (''/s/'' @ replicate 246 CHR ''a'' @ '' (2).png''))"
  by code_simp

section \<open>The budget\<close>

text \<open>Claim C5. \<^verbatim>\<open>maxSafeBytes\<close> never grows. A run that returns leaves it lower by exactly
  the number of retries it made after \<^verbatim>\<open>ENAMETOOLONG\<close>, hence no higher than it found it; and
  any call made afterwards starts from the value left: it ends no higher, and the first
  candidate it checks is computed from that value, not from an earlier, larger one.\<close>

theorem budget_only_shrinks:
  assumes "ensureSafePath reject withoutExt ext overwrite num w = Some (r, w')"
  shows "maxSafeBytes w' = maxSafeBytes w - int (recoveries w' - recoveries w)
         \<and> maxSafeBytes w' \<le> maxSafeBytes w
         \<and> (\<forall>reject2 x e ov n r2 w2.
               ensureSafePath reject2 x e ov n w' = Some (r2, w2) \<longrightarrow>
                 maxSafeBytes w2 \<le> maxSafeBytes w'
                 \<and> hd (drop (length (probed w')) (probed w2))
                     = truncated (maxSafeBytes w' - int (js_length (suffix_of n ov e))) x
                       @ suffix_of n ov e)"
proof -
  have first: "maxSafeBytes w' = maxSafeBytes w - int (recoveries w' - recoveries w)
               \<and> maxSafeBytes w' \<le> maxSafeBytes w"
    using run_accounting [OF assms] by auto
  have later: "maxSafeBytes w2 \<le> maxSafeBytes w'
               \<and> hd (drop (length (probed w')) (probed w2))
                   = truncated (maxSafeBytes w' - int (js_length (suffix_of n ov e))) x
                     @ suffix_of n ov e"
    if "ensureSafePath reject2 x e ov n w' = Some (r2, w2)" for reject2 x e ov n r2 w2
    using run_accounting [OF that] by auto
  from first later show ?thesis by blast
qed

text \<open>A name of 64 bytes and a budget of 68 on a filesystem that takes 67 bytes: one
  retry, and the budget is left at 67.\<close>

theorem budget_only_shrinks_witness:
  "\<exists>r w'. ensureSafePath (limit_fs 67) (''/s/'' @ replicate 64 CHR ''a'') ''png'' False 0
             (world_of [] 68) = Some (r, w')
          \<and> recoveries w' = 1 \<and> maxSafeBytes w' = 67"
proof -
  let ?run = "ensureSafePath (limit_fs 67) (''/s/'' @ replicate 64 CHR ''a'') ''png'' False 0
                (world_of [] 68)"
  have "map_option (recoveries \<circ> snd) ?run = Some 1" by code_simp
  then obtain r w' where run: "?run = Some (r, w')" and rec: "recoveries w' = 1"
    by (cases ?run) auto
  from budget_only_shrinks [OF run] rec have "maxSafeBytes w' = 67"
    by (simp add: world_of_def)
  with run rec show ?thesis by blast
qed

text \<open>Claim C10. When a run ends with the error thrown after \<open>k \<ge> 1\<close> retries for
  \<^verbatim>\<open>ENAMETOOLONG\<close>, \<^verbatim>\<open>maxSafeBytes\<close> is left at its value on entry minus \<open>k\<close>: nothing restores
  it, and whatever is called afterwards works with that value or less.\<close>

theorem failed_run_keeps_decrements:
  assumes "ensureSafePath reject withoutExt ext overwrite num w = Some (Inl err, w')"
    and "recoveries w' = recoveries w + k"
    and "1 \<le> k"
  shows "maxSafeBytes w' = maxSafeBytes w - int k
         \<and> (\<forall>reject2 x e ov n r2 w2.
               ensureSafePath reject2 x e ov n w' = Some (r2, w2) \<longrightarrow>
                 maxSafeBytes w2 \<le> maxSafeBytes w - int k)"
proof -
  have first: "maxSafeBytes w' = maxSafeBytes w - int k"
    using run_accounting [OF assms(1)] assms(2) by simp
  have later: "maxSafeBytes w2 \<le> maxSafeBytes w - int k"
    if "ensureSafePath reject2 x e ov n w' = Some (r2, w2)" for reject2 x e ov n r2 w2
    using run_accounting [OF that] first by auto
  from first later show ?thesis by blast
qed

text \<open>A name of 64 bytes and a budget of 70 on a filesystem that takes 60 bytes: three
  retries, then the error, and the budget is left at 67.\<close>

theorem failed_run_keeps_decrements_witness:
  "\<exists>w'. ensureSafePath (limit_fs 60) (''/s/'' @ replicate 64 CHR ''a'') ''png'' False 0
             (world_of [] 70) = Some (Inl (IoError ''ENAMETOOLONG''), w')
          \<and> recoveries w' = recoveries (world_of [] 70) + 3
          \<and> (1::nat) \<le> 3
          \<and> maxSafeBytes w' = 70 - 3"
proof -
  let ?run = "ensureSafePath (limit_fs 60) (''/s/'' @ replicate 64 CHR ''a'') ''png'' False 0
                (world_of [] 70)"
  have "map_option fst ?run = Some (Inl (IoError ''ENAMETOOLONG''))" by code_simp
  moreover have "map_option (recoveries \<circ> snd) ?run = Some 3" by code_simp
  ultimately obtain w' where run: "?run = Some (Inl (IoError ''ENAMETOOLONG''), w')"
    and rec: "recoveries w' = recoveries (world_of [] 70) + 3"
    by (cases ?run) (auto simp add: world_of_def)
  from failed_run_keeps_decrements [OF run rec] have "maxSafeBytes w' = 70 - 3"
    by (simp add: world_of_def)
  with run rec show ?thesis by simp
qed

section \<open>The floor\<close>

text \<open>Claim C4, as amended. When creating the file fails with \<^verbatim>\<open>ENAMETOOLONG\<close>: if
  \<^verbatim>\<open>maxSafePrefixBytes\<close> is strictly below \<^verbatim>\<open>MIN_PREFIX_BYTES\<close> the error is thrown at once, the
  budget untouched and nothing retried; if it is at or above \<^verbatim>\<open>MIN_PREFIX_BYTES\<close> the budget
  is lowered by one and the same duplicate index is tried again. At the floor itself the
  run retries: the guard of line 87 is \<^verbatim>\<open>>=\<close>.\<close>

theorem name_too_long_at_the_floor:
  assumes "overwrite \<or> \<not> pathExists w (candidate w withoutExt ext overwrite num)"
    and "reject (candidate w withoutExt ext overwrite num) = Some err"
    and "code err = ''ENAMETOOLONG''"
  shows "(prefixBytes w ext overwrite num < MIN_PREFIX_BYTES \<longrightarrow>
            ensureSafePath reject withoutExt ext overwrite num w =
              Some (Inl err, w\<lparr>probed := probed w @ [candidate w withoutExt ext overwrite num]\<rparr>))
         \<and> (MIN_PREFIX_BYTES \<le> prefixBytes w ext overwrite num \<longrightarrow>
            ensureSafePath reject withoutExt ext overwrite num w =
              ensureSafePath reject (stem w withoutExt ext overwrite num) ext overwrite num
                (w\<lparr>probed := probed w @ [candidate w withoutExt ext overwrite num],
                   maxSafeBytes := maxSafeBytes w - 1,
                   recoveries := recoveries w + 1\<rparr>))"
proof (intro conjI impI)
  assume "prefixBytes w ext overwrite num < MIN_PREFIX_BYTES"
  with assms(1,2) show "ensureSafePath reject withoutExt ext overwrite num w =
      Some (Inl err, w\<lparr>probed := probed w @ [candidate w withoutExt ext overwrite num]\<rparr>)"
    by (intro ensureSafePath_failed) simp_all
next
  assume "MIN_PREFIX_BYTES \<le> prefixBytes w ext overwrite num"
  with assms show "ensureSafePath reject withoutExt ext overwrite num w =
      ensureSafePath reject (stem w withoutExt ext overwrite num) ext overwrite num
        (w\<lparr>probed := probed w @ [candidate w withoutExt ext overwrite num],
           maxSafeBytes := maxSafeBytes w - 1,
           recoveries := recoveries w + 1\<rparr>)"
    by (intro ensureSafePath_shrink)
qed

text \<open>A budget of 67 leaves 63 bytes for the prefix, below the floor: the error is thrown.\<close>

theorem name_too_long_at_the_floor_witness:
  "\<not> pathExists (world_of [] 67) (''/s/'' @ replicate 63 CHR ''a'' @ ''.png'')
   \<and> limit_fs 60 (''/s/'' @ replicate 63 CHR ''a'' @ ''.png'') = Some (IoError ''ENAMETOOLONG'')
   \<and> code (IoError ''ENAMETOOLONG'') = ''ENAMETOOLONG''
   \<and> prefixBytes (world_of [] 67) ''png'' False 0 < MIN_PREFIX_BYTES
   \<and> ensureSafePath (limit_fs 60) (''/s/'' @ replicate 64 CHR ''a'') ''png'' False 0 (world_of [] 67)
       = Some (Inl (IoError ''ENAMETOOLONG''),
               (world_of [] 67)\<lparr>probed := [''/s/'' @ replicate 63 CHR ''a'' @ ''.png'']\<rparr>)"
proof -
  let ?w = "world_of [] 67"
  let ?n = "''/s/'' @ replicate 64 CHR ''a''"
  have c: "candidate ?w ?n ''png'' False 0 = ''/s/'' @ replicate 63 CHR ''a'' @ ''.png''"
    by code_simp
  have free: "\<not> pathExists ?w (''/s/'' @ replicate 63 CHR ''a'' @ ''.png'')"
    by code_simp
  have rej: "limit_fs 60 (''/s/'' @ replicate 63 CHR ''a'' @ ''.png'') = Some (IoError ''ENAMETOOLONG'')"
    by code_simp
  have low: "prefixBytes ?w ''png'' False 0 < MIN_PREFIX_BYTES"
    by code_simp
  have "probed ?w = []" by (simp add: world_of_def)
  then show ?thesis
    using name_too_long_at_the_floor [where overwrite = False and w = ?w and withoutExt = ?n
        and ext = "''png''" and num = 0 and reject = "limit_fs 60"
        and err = "IoError ''ENAMETOOLONG''"]
      c free rej low
    by simp
qed

text \<open>The claim as first stated has the error thrown when \<^verbatim>\<open>maxSafePrefixBytes\<close> is at the
  floor. With a budget of 68 it is exactly 64; creation fails with \<^verbatim>\<open>ENAMETOOLONG\<close>, the
  run retries once and returns a path.\<close>

theorem retry_at_the_floor_counterexample:
  "prefixBytes (world_of [] 68) ''png'' False 0 = MIN_PREFIX_BYTES
   \<and> limit_fs 67 (candidate (world_of [] 68) (''/s/'' @ replicate 64 CHR ''a'') ''png'' False 0)
       = Some (IoError ''ENAMETOOLONG'')
   \<and> map_option fst (ensureSafePath (limit_fs 67) (''/s/'' @ replicate 64 CHR ''a'') ''png'' False 0
         (world_of [] 68)) = Some (Inr (''/s/'' @ replicate 63 CHR ''a'' @ ''.png''))
   \<and> map_option (recoveries \<circ> snd)
         (ensureSafePath (limit_fs 67) (''/s/'' @ replicate 64 CHR ''a'') ''png'' False 0
         (world_of [] 68)) = Some 1"
  by code_simp

section \<open>Overwriting never adds the duplicate index\<close>

text \<open>Claim C3, as amended. With \<^verbatim>\<open>overwrite\<close> true the suffix is \<^verbatim>\<open>"." + extension\<close> whatever
  \<^verbatim>\<open>num\<close> is, so no candidate carries a duplicate index: the candidate is the path without
  extension, its basename cut to the budget when it is too long, followed by the extension.
  The run does not depend on \<^verbatim>\<open>num\<close>; it always returns, and what it returns and the budget
  it leaves are the same for every \<^verbatim>\<open>num\<close> and every set of existing files. When the basename
  with \<^verbatim>\<open>"." + extension\<close> fits in \<^verbatim>\<open>maxSafeBytes\<close> and the filesystem accepts the file, every
  resolution of the same input under that budget, the first one and any repetition, returns
  the canonical path \<^verbatim>\<open>withoutExt + "." + extension\<close>, whatever \<^verbatim>\<open>num\<close> is and whatever files
  exist. When the basename does not fit, what is returned (if the filesystem accepts it) is
  the cut name with the extension, not the canonical path.\<close>

theorem overwrite_targets_unsuffixed_path:
  "suffix_of num True ext = ''.'' @ ext
   \<and> candidate w withoutExt ext True num
       = truncated (maxSafeBytes w - int (js_length (''.'' @ ext))) withoutExt @ ''.'' @ ext
   \<and> ensureSafePath reject withoutExt ext True num w
       = ensureSafePath reject withoutExt ext True 0 w
   \<and> (\<exists>r w'. ensureSafePath reject withoutExt ext True num w = Some (r, w')
         \<and> (\<forall>num2 F. \<exists>w2.
               ensureSafePath reject withoutExt ext True num2 (w\<lparr>files := F\<rparr>) = Some (r, w2)
               \<and> maxSafeBytes w2 = maxSafeBytes w'))
   \<and> (int (length (basename withoutExt)) + int (js_length (''.'' @ ext)) \<le> maxSafeBytes w
        \<and> reject (withoutExt @ ''.'' @ ext) = None \<longrightarrow>
        (\<forall>w2 num2. maxSafeBytes w2 = maxSafeBytes w \<longrightarrow>
           ensureSafePath reject withoutExt ext True num2 w2
             = Some (Inr (withoutExt @ ''.'' @ ext),
                     w2\<lparr>probed := probed w2 @ [withoutExt @ ''.'' @ ext],
                        files := (files w2)(withoutExt @ ''.'' @ ext \<mapsto> [])\<rparr>)))
   \<and> (reject (candidate w withoutExt ext True 0) = None \<longrightarrow>
        (\<forall>w2 num2. maxSafeBytes w2 = maxSafeBytes w \<longrightarrow>
           ensureSafePath reject withoutExt ext True num2 w2
             = Some (Inr (candidate w withoutExt ext True 0),
                     w2\<lparr>probed := probed w2 @ [candidate w withoutExt ext True 0],
                        files := (files w2)(candidate w withoutExt ext True 0 \<mapsto> [])\<rparr>)))"
proof -
  have cut: "ensureSafePath reject withoutExt ext True num2 w2
          = Some (Inr (candidate w withoutExt ext True 0),
                  w2\<lparr>probed := probed w2 @ [candidate w withoutExt ext True 0],
                     files := (files w2)(candidate w withoutExt ext True 0 \<mapsto> [])\<rparr>)"
    if acc: "reject (candidate w withoutExt ext True 0) = None"
      and b: "maxSafeBytes w2 = maxSafeBytes w" for w2 :: world and num2 :: nat
  proof -
    have same: "candidate w2 withoutExt ext True num2 = candidate w withoutExt ext True 0"
      using b by (simp add: suffix_of_overwrite)
    show ?thesis
      using acc ensureSafePath_resolved [where overwrite = True and w = w2
          and withoutExt = withoutExt and extension = ext and num = num2 and reject = reject]
      unfolding same by simp
  qed
  have canonical: "ensureSafePath reject withoutExt ext True num2 w2
          = Some (Inr (withoutExt @ ''.'' @ ext),
                  w2\<lparr>probed := probed w2 @ [withoutExt @ ''.'' @ ext],
                     files := (files w2)(withoutExt @ ''.'' @ ext \<mapsto> [])\<rparr>)"
    if fits: "int (length (basename withoutExt)) + int (js_length (''.'' @ ext)) \<le> maxSafeBytes w"
      and acc: "reject (withoutExt @ ''.'' @ ext) = None"
      and b: "maxSafeBytes w2 = maxSafeBytes w" for w2 :: world and num2 :: nat
  proof -
    from fits have c: "candidate w withoutExt ext True 0 = withoutExt @ ''.'' @ ext"
      by (simp add: suffix_of_overwrite truncated_fits)
    from acc have "reject (candidate w withoutExt ext True 0) = None"
      by (simp only: c)
    from cut [OF this b, of num2] show ?thesis
      by (simp only: c)
  qed
  have s: "suffix_of num True ext = ''.'' @ ext" by (rule suffix_of_overwrite)
  have form: "candidate w withoutExt ext True num
       = truncated (maxSafeBytes w - int (js_length (''.'' @ ext))) withoutExt @ ''.'' @ ext"
    by (simp add: suffix_of_overwrite)
  have any_num: "ensureSafePath reject withoutExt ext True num w
       = ensureSafePath reject withoutExt ext True 0 w"
    by (rule overwrite_num_irrelevant)
  obtain y where run: "ensureSafePath reject withoutExt ext True num w = Some y"
    using overwrite_returns by blast
  have "\<exists>w2. ensureSafePath reject withoutExt ext True num2 (w\<lparr>files := F\<rparr>) = Some (fst y, w2)
               \<and> maxSafeBytes w2 = maxSafeBytes (snd y)" for num2 F
    using overwrite_outcome [OF run, of num2 F] by blast
  then have total: "\<exists>r w'. ensureSafePath reject withoutExt ext True num w = Some (r, w')
         \<and> (\<forall>num2 F. \<exists>w2.
               ensureSafePath reject withoutExt ext True num2 (w\<lparr>files := F\<rparr>) = Some (r, w2)
               \<and> maxSafeBytes w2 = maxSafeBytes w')"
    using run by (cases y) auto
  from s form any_num total canonical cut show ?thesis by blast
qed

text \<open>\<^verbatim>\<open>/s/abc.png\<close> is returned with index 3 and the file already there, as it is with
  index 0 and no file.\<close>

theorem overwrite_targets_unsuffixed_witness:
  "int (length (basename ''/s/abc'')) + int (js_length (''.'' @ ''png''))
      \<le> maxSafeBytes (world_of [(''/s/abc.png'', ''old'')] 254)
   \<and> limit_fs 255 (''/s/abc'' @ ''.'' @ ''png'') = None
   \<and> maxSafeBytes (world_of [] 254) = maxSafeBytes (world_of [(''/s/abc.png'', ''old'')] 254)
   \<and> map_option fst (ensureSafePath (limit_fs 255) ''/s/abc'' ''png'' True 3
         (world_of [(''/s/abc.png'', ''old'')] 254)) = Some (Inr ''/s/abc.png'')
   \<and> map_option fst (ensureSafePath (limit_fs 255) ''/s/abc'' ''png'' True 0
         (world_of [] 254)) = Some (Inr ''/s/abc.png'')"
proof -
  let ?w = "world_of [(''/s/abc.png'', ''old'')] 254"
  have fits: "int (length (basename ''/s/abc'')) + int (js_length (''.'' @ ''png'')) \<le> maxSafeBytes ?w"
    by code_simp
  have acc: "limit_fs 255 (''/s/abc'' @ ''.'' @ ''png'') = None" by code_simp
  have b: "maxSafeBytes (world_of [] 254) = maxSafeBytes ?w" by (simp add: world_of_def)
  from overwrite_targets_unsuffixed_path [where w = ?w and withoutExt = "''/s/abc''"
      and ext = "''png''" and reject = "limit_fs 255" and num = 0] fits acc
  have every: "\<forall>w2 num2. maxSafeBytes w2 = maxSafeBytes ?w \<longrightarrow>
      ensureSafePath (limit_fs 255) ''/s/abc'' ''png'' True num2 w2
        = Some (Inr (''/s/abc'' @ ''.'' @ ''png''),
                w2\<lparr>probed := probed w2 @ [''/s/abc'' @ ''.'' @ ''png''],
                   files := (files w2)(''/s/abc'' @ ''.'' @ ''png'' \<mapsto> [])\<rparr>)"
    by blast
  from every have "map_option fst (ensureSafePath (limit_fs 255) ''/s/abc'' ''png'' True 3 ?w)
                 = Some (Inr ''/s/abc.png'')"
    by simp
  moreover from every b
  have "map_option fst (ensureSafePath (limit_fs 255) ''/s/abc'' ''png'' True 0 (world_of [] 254))
                 = Some (Inr ''/s/abc.png'')"
    by simp
  ultimately show ?thesis using fits acc b by blast
qed

text \<open>The claim as first stated has the canonical path returned for every input. A basename
  of 260 bytes does not fit: with \<^verbatim>\<open>overwrite\<close> true and index 7 the path returned has no
  duplicate index, but it is the name cut to 250 bytes, not \<^verbatim>\<open>withoutExt + ".png"\<close>.\<close>

theorem overwrite_cut_name_counterexample:
  "map_option fst
     (ensureSafePath (limit_fs 255) (''/s/'' @ replicate 260 CHR ''a'') ''png'' True 7
        (world_of [] 254))
   = Some (Inr (''/s/'' @ replicate 250 CHR ''a'' @ ''.png''))
   \<and> ''/s/'' @ replicate 250 CHR ''a'' @ ''.png''
       \<noteq> (''/s/'' @ replicate 260 CHR ''a'') @ ''.'' @ ''png''"
  by code_simp

section \<open>Every run returns\<close>




section \<open>Truncation in the middle of a character\<close>

text \<open>Claim C2. A basename longer than \<^verbatim>\<open>maxSafePrefixBytes\<close> is cut to that many bytes, so
  that the name returned has \<^verbatim>\<open>maxSafePrefixBytes\<close> bytes and the suffix. The code does not
  achieve this when the cut falls inside a character: \<^verbatim>\<open>toString()\<close> turns what is left of
  that character into U+FFFD, three bytes. In the first run the budget is 254 and the
  suffix \<^verbatim>\<open>.png\<close>, so 250 bytes are left for the prefix; the basename has 254 bytes, and its
  249th to 251st bytes are one character. The filesystem takes 255 bytes. The name returned
  has 255 bytes, not 254. In the second run the budget is set to 100 and the 96th and 97th
  bytes of the basename are one character: the name returned has 102 bytes, not 100.\<close>

theorem split_character_lengthens_name:
  "length (basename (''/s/'' @ replicate 248 CHR ''a'' @ [CHR 0xE3, CHR 0x81, CHR 0x82] @ ''bcd'')) = 254
   \<and> prefixBytes (world_of [] 254) ''png'' False 0 = 250
   \<and> js_length (suffix_of 0 False ''png'') = 4
   \<and> map_option fst
       (ensureSafePath (limit_fs 255)
          (''/s/'' @ replicate 248 CHR ''a'' @ [CHR 0xE3, CHR 0x81, CHR 0x82] @ ''bcd'') ''png'' False 0
          (world_of [] 254))
     = Some (Inr (''/s/'' @ replicate 248 CHR ''a'' @ [CHR 0xEF, CHR 0xBF, CHR 0xBD] @ ''.png''))
   \<and> length (basename (''/s/'' @ replicate 248 CHR ''a'' @ [CHR 0xEF, CHR 0xBF, CHR 0xBD] @ ''.png''))
       = 255
   \<and> prefixBytes (world_of [] 100) ''png'' False 0 = 96
   \<and> map_option fst
       (ensureSafePath (limit_fs 255)
          (''/s/'' @ replicate 95 CHR ''a'' @ [CHR 0xC3, CHR 0xA9] @ ''bcd'') ''png'' False 0
          (world_of [] 100))
     = Some (Inr (''/s/'' @ replicate 95 CHR ''a'' @ [CHR 0xEF, CHR 0xBF, CHR 0xBD] @ ''.png''))
   \<and> length (basename (''/s/'' @ replicate 95 CHR ''a'' @ [CHR 0xEF, CHR 0xBF, CHR 0xBD] @ ''.png''))
       = 102"
  by code_simp

section \<open>Sanitizing\<close>

lemma set_remove_c1: "set (remove_c1 s) \<subseteq> set s"
  by (induction s rule: remove_c1.induct) auto

lemma set_strip_trailing: "set (strip_trailing s) \<subseteq> set s"
  using set_dropWhileD [of _ _ "rev s"] by (auto simp add: strip_trailing_def)

lemma set_truncate_utf8: "set (truncate_utf8 n s) \<subseteq> set s"
proof -
  have "set (tl (dropWhile continuation (rev (take n s)))) \<subseteq> set s"
  proof
    fix c assume "c \<in> set (tl (dropWhile continuation (rev (take n s))))"
    then have "c \<in> set (dropWhile continuation (rev (take n s)))"
      by (cases "dropWhile continuation (rev (take n s))") simp_all
    then have "c \<in> set (rev (take n s))" by (rule set_dropWhileD)
    then show "c \<in> set s" by (auto dest: in_set_takeD)
  qed
  then show ?thesis
    by (auto simp add: truncate_utf8_def dest: in_set_takeD)
qed

lemma set_sanitize:
  "set (sanitize s) \<subseteq> {c \<in> set s. \<not> illegal c \<and> \<not> control c}"
proof -
  let ?s2 = "remove_c1 (filter (\<lambda>c. \<not> control c) (filter (\<lambda>c. \<not> illegal c) s))"
  let ?s3 = "if dots_only ?s2 then [] else ?s2"
  let ?s4 = "if windows_reserved ?s3 then [] else ?s3"
  have "set (sanitize s) \<subseteq> set (strip_trailing ?s4)"
    unfolding sanitize_def Let_def by (rule set_truncate_utf8)
  also have "\<dots> \<subseteq> set ?s4" by (rule set_strip_trailing)
  also have "\<dots> \<subseteq> set ?s2" by simp
  also have "\<dots> \<subseteq> set (filter (\<lambda>c. \<not> control c) (filter (\<lambda>c. \<not> illegal c) s))"
    by (rule set_remove_c1)
  also have "\<dots> \<subseteq> {c \<in> set s. \<not> illegal c \<and> \<not> control c}" by auto
  finally show ?thesis .
qed

lemma sanitizeToString_safe: "c \<in> set (sanitizeToString title) \<Longrightarrow> \<not> illegal c \<and> \<not> control c"
  using set_sanitize [of "lodash_toString title"] by (auto simp add: sanitizeToString_def)

text \<open>Claim C9. \<^verbatim>\<open>sanitizeToString\<close> never raises and returns a string free of unsafe
  characters, for every title: the value it passes to \<^verbatim>\<open>sanitize\<close> is a string, so the
  package's check of its input succeeds, and what comes back holds none of the reserved
  characters \<^verbatim>\<open>/ ? < > \ : * | "\<close> and no control character below U+0020.\<close>

theorem sanitizeToString_total_and_safe:
  "sanitize_filename (JString (lodash_toString title)) = Inr (sanitizeToString title)
   \<and> (\<forall>c \<in> set (sanitizeToString title). \<not> illegal c \<and> \<not> control c)"
  using sanitizeToString_safe [of _ title]
  by (auto simp add: sanitize_filename_def sanitizeToString_def)

text \<open>A string with reserved characters, \<^verbatim>\<open>null\<close>, a number and the empty string.\<close>

theorem sanitizeToString_witness:
  "sanitize_filename (JString (lodash_toString (JString ''why?/not''))) = Inr ''whynot''
   \<and> CHR ''w'' \<in> set (sanitizeToString (JString ''why?/not''))
   \<and> \<not> illegal CHR ''w'' \<and> \<not> control CHR ''w''
   \<and> sanitizeToString JNull = []
   \<and> sanitizeToString (JNumber (- 12)) = ''-12''
   \<and> sanitizeToString (JString []) = []"
proof -
  have v: "sanitizeToString (JString ''why?/not'') = ''whynot''" by code_simp
  have others: "sanitizeToString JNull = []" "sanitizeToString (JNumber (- 12)) = ''-12''"
    "sanitizeToString (JString []) = []" by code_simp+
  from v have m: "CHR ''w'' \<in> set (sanitizeToString (JString ''why?/not''))" by simp
  from sanitizeToString_total_and_safe [of "JString ''why?/not''"] m v others
  show ?thesis by auto
qed

section \<open>The directories of the path\<close>

text \<open>Claim C8, as amended. The segments that \<^verbatim>\<open>getPath\<close> joins after the screenshots folder
  are the segments of \<^verbatim>\<open>specName\<close>, split on \<^verbatim>\<open>/\<close> and \<^verbatim>\<open>\\<close> and taken as they are, followed by
  all the names but the last, followed by the last name with its markers. The names before
  the last are the sanitized segments of \<^verbatim>\<open>data.name\<close> (there are none when the name is built
  from the titles), and only they are free of unsafe characters: the segments of
  \<^verbatim>\<open>specName\<close> are not sanitized.\<close>

theorem directory_segments:
  "getPath reject data ext screenshotsFolder overwrite w =
     ensureSafePath reject
       (path_join (screenshotsFolder # split_on pathSeparator (specName data)
          @ butlast (names_initial data) @ [last (names data)]))
       ext overwrite 0 w
   \<and> (name data \<noteq> [] \<longrightarrow>
        butlast (names_initial data)
          = map sanitize (butlast (split_on pathSeparator (name data))))
   \<and> (name data = [] \<longrightarrow> butlast (names_initial data) = [])
   \<and> (\<forall>s \<in> set (butlast (names_initial data)). \<forall>c \<in> set s. \<not> illegal c \<and> \<not> control c)"
proof (intro conjI impI ballI)
  have "names data = butlast (names_initial data) @ [last (names data)]"
    by (simp add: names_shape)
  then have "specNames data @ names data =
      split_on pathSeparator (specName data) @ butlast (names_initial data) @ [last (names data)]"
    by (simp add: specNames_def)
  then show "getPath reject data ext screenshotsFolder overwrite w =
     ensureSafePath reject
       (path_join (screenshotsFolder # split_on pathSeparator (specName data)
          @ butlast (names_initial data) @ [last (names data)]))
       ext overwrite 0 w"
    by (simp add: getPath_def Let_def)
next
  assume "name data \<noteq> []"
  then show "butlast (names_initial data)
          = map sanitize (butlast (split_on pathSeparator (name data)))"
    by (simp add: names_initial_def sanitizeToString_def lodash_toString_def map_butlast)
next
  assume "name data = []"
  then show "butlast (names_initial data) = []"
    by (simp add: names_initial_def)
next
  fix s c
  assume s: "s \<in> set (butlast (names_initial data))" and c: "c \<in> set s"
  from s have "s \<in> set (names_initial data)" by (rule in_set_butlastD)
  moreover from s have "name data \<noteq> []"
    by (auto simp add: names_initial_def split: if_splits)
  ultimately obtain t where "s = sanitizeToString (JString t)"
    by (auto simp add: names_initial_def)
  with c sanitizeToString_safe show "\<not> illegal c" and "\<not> control c"
    by blast+
qed

text \<open>A name with two directories of its own.\<close>

theorem directory_segments_witness:
  "name \<lparr>specName = ''cypress/e2e/spec1.cy.js'', name = ''dir/sub/shot'', titles = [],
          testFailure = False, testAttemptIndex = 0\<rparr> \<noteq> []
   \<and> butlast (names_initial \<lparr>specName = ''cypress/e2e/spec1.cy.js'', name = ''dir/sub/shot'',
          titles = [], testFailure = False, testAttemptIndex = 0\<rparr>) = [''dir'', ''sub'']
   \<and> \<not> illegal CHR ''d'' \<and> \<not> control CHR ''d''
   \<and> map_option fst (getPath (limit_fs 255)
         \<lparr>specName = ''cypress/e2e/spec1.cy.js'', name = ''dir/sub/shot'', titles = [],
          testFailure = False, testAttemptIndex = 0\<rparr> ''png'' ''/shots'' False (world_of [] 254))
       = Some (Inr ''/shots/cypress/e2e/spec1.cy.js/dir/sub/shot.png'')"
proof -
  let ?d = "\<lparr>specName = ''cypress/e2e/spec1.cy.js'', name = ''dir/sub/shot'', titles = [],
          testFailure = False, testAttemptIndex = 0\<rparr>"
  have n: "name ?d \<noteq> []" by simp
  have segs: "map sanitize (butlast (split_on pathSeparator (name ?d))) = [''dir'', ''sub'']"
    by code_simp
  have run: "map_option fst (ensureSafePath (limit_fs 255)
       (path_join (''/shots'' # split_on pathSeparator (specName ?d)
          @ butlast (names_initial ?d) @ [last (names ?d)]))
       ''png'' False 0 (world_of [] 254))
     = Some (Inr ''/shots/cypress/e2e/spec1.cy.js/dir/sub/shot.png'')"
    by code_simp
  note inst = directory_segments [of "limit_fs 255" ?d "''png''" "''/shots''" False "world_of [] 254"]
  from inst n segs have b: "butlast (names_initial ?d) = [''dir'', ''sub'']" by simp
  from inst b have "\<forall>c \<in> set ''dir''. \<not> illegal c \<and> \<not> control c" by simp
  then have d: "\<not> illegal CHR ''d'' \<and> \<not> control CHR ''d''" by simp
  from inst have "getPath (limit_fs 255) ?d ''png'' ''/shots'' False (world_of [] 254) =
     ensureSafePath (limit_fs 255)
       (path_join (''/shots'' # split_on pathSeparator (specName ?d)
          @ butlast (names_initial ?d) @ [last (names ?d)]))
       ''png'' False 0 (world_of [] 254)"
    by blast
  with run have "map_option fst (getPath (limit_fs 255) ?d ''png'' ''/shots'' False (world_of [] 254))
       = Some (Inr ''/shots/cypress/e2e/spec1.cy.js/dir/sub/shot.png'')"
    by (simp only:)
  with n b d show ?thesis by blast
qed

text \<open>The claim as first stated has the segments of \<^verbatim>\<open>specName\<close> sanitized. A spec in a
  directory called \<^verbatim>\<open>what?\<close> keeps the question mark in the path returned, though sanitizing
  the segment would remove it.\<close>

theorem unsanitized_spec_directory_counterexample:
  "specNames \<lparr>specName = ''what?/spec1.cy.js'', name = ''t'', titles = [],
               testFailure = False, testAttemptIndex = 0\<rparr> = [''what?'', ''spec1.cy.js'']
   \<and> sanitizeToString (JString ''what?'') = ''what''
   \<and> illegal CHR ''?''
   \<and> map_option fst (getPath (limit_fs 255)
         \<lparr>specName = ''what?/spec1.cy.js'', name = ''t'', titles = [],
          testFailure = False, testAttemptIndex = 0\<rparr> ''png'' ''/shots'' False (world_of [] 254))
       = Some (Inr ''/shots/what?/spec1.cy.js/t.png'')"
  by code_simp

end
